theory Spec2Isabelle
  imports Complex_Main "HOL-Library.Word"
begin

section \<open>The image-transform pipeline of \<^verbatim>\<open>src/lib/functions.ts\<close>\<close>

subsection \<open>Numbers, pixel buffers and palettes\<close>

text \<open>
  A JavaScript number is modelled as an optional rational: \<open>None\<close> stands for \<open>NaN\<close>, which is
  also what \<open>undefined\<close> (an out-of-range read of a typed array) becomes in arithmetic.
  Every finite value the transforms compute from bytes and palette channels is an integer or
  a quotient of small integers by 16 or 255. The quotients by 16 are exact in binary floating
  point; for the quotient by 255 of \<open>flattenAlpha\<close> see \<open>flatten_round_margin\<close> below.
\<close>

type_synonym number = "rat option"

type_synonym byte = "8 word"

text \<open>A palette entry \<^verbatim>\<open>[r, g, b]\<close> of the \<^verbatim>\<open>number[][]\<close> palette, with integer channels.\<close>

type_synonym rgb = "int \<times> int \<times> int"

record ImageData =
  data :: "byte list"
  width :: nat
  height :: nat

text \<open>The platform keeps \<open>data.length = 4 * width * height\<close> for every \<^verbatim>\<open>ImageData\<close> object,
  with both dimensions positive.\<close>

definition wf_image :: "ImageData \<Rightarrow> bool" where
  "wf_image img \<longleftrightarrow>
     0 < width img \<and> 0 < height img \<and> length (data img) = 4 * width img * height img"

datatype error = TypeError | InvalidStateError | IndexSizeError

definition num :: "int \<Rightarrow> number" where
  "num i = Some (of_int i)"

fun binop :: "(rat \<Rightarrow> rat \<Rightarrow> rat) \<Rightarrow> number \<Rightarrow> number \<Rightarrow> number" where
  "binop f (Some a) (Some b) = Some (f a b)"
| "binop f _ _ = None"

definition add :: "number \<Rightarrow> number \<Rightarrow> number" where
  "add = binop (+)"

definition sub :: "number \<Rightarrow> number \<Rightarrow> number" where
  "sub = binop (-)"

definition mul :: "number \<Rightarrow> number \<Rightarrow> number" where
  "mul = binop (*)"

text \<open>Division; the divisors in the modelled code are the non-zero constants 16 and 255.\<close>

definition divide_num :: "number \<Rightarrow> number \<Rightarrow> number" where
  "divide_num = binop (/)"

definition Math_max :: "number \<Rightarrow> number \<Rightarrow> number" where
  "Math_max = binop max"

definition Math_min :: "number \<Rightarrow> number \<Rightarrow> number" where
  "Math_min = binop min"

text \<open>\<^verbatim>\<open>Math.pow(v, 2)\<close>.\<close>

definition Math_pow2 :: "number \<Rightarrow> number" where
  "Math_pow2 v = mul v v"

text \<open>\<^verbatim>\<open>Math.round\<close>: the nearest integer, a tie going towards plus infinity.\<close>

definition Math_round :: "number \<Rightarrow> number" where
  "Math_round v = map_option (\<lambda>q. of_int \<lfloor>q + 1 / 2\<rfloor>) v"

text \<open>\<^verbatim>\<open>a < b\<close>: false as soon as one side is \<open>NaN\<close>.\<close>

fun less_num :: "number \<Rightarrow> number \<Rightarrow> bool" where
  "less_num (Some a) (Some b) \<longleftrightarrow> a < b"
| "less_num _ _ \<longleftrightarrow> False"

text \<open>
  The conversion a \<^verbatim>\<open>Uint8ClampedArray\<close> applies to a stored value: \<open>NaN\<close> becomes 0, the
  value is clamped to \<open>[0, 255]\<close> and rounded to the nearest integer, a tie going to the even
  neighbour.
\<close>

definition ToUint8Clamp :: "number \<Rightarrow> byte" where
  "ToUint8Clamp v =
     (case v of
        None \<Rightarrow> 0
      | Some q \<Rightarrow>
          (let clamped = min (max q 0) 255;
               f = \<lfloor>clamped\<rfloor>
           in word_of_int
                (if clamped < of_int f + 1 / 2 then f
                 else if of_int f + 1 / 2 < clamped then f + 1
                 else if even f then f else f + 1)))"

text \<open>\<^verbatim>\<open>data[i]\<close> as a value: \<open>undefined\<close> (here \<open>None\<close>) outside the array.\<close>

definition load :: "byte list \<Rightarrow> nat \<Rightarrow> number" where
  "load d i = (if i < length d then num (uint (d ! i)) else None)"

text \<open>\<^verbatim>\<open>data[i] = v\<close>: a write outside the array is ignored, the length never changes.\<close>

definition store :: "byte list \<Rightarrow> nat \<Rightarrow> number \<Rightarrow> byte list" where
  "store d i v = (if i < length d then d[i := ToUint8Clamp v] else d)"

subsection \<open>\<^verbatim>\<open>adjustImageSize\<close>\<close>

text \<open>
  Image dimensions and the block size are integers. For \<open>blockSize = 0\<close> the quotients are
  not finite and both fields of the result are \<open>NaN\<close>: the model returns \<open>None\<close>. Otherwise
  \<^verbatim>\<open>Math.floor(a / b)\<close> on integers is the flooring division \<open>a div b\<close>. The result is the
  pair \<open>(width, height)\<close>.
\<close>

definition adjustImageSize :: "int \<Rightarrow> int \<Rightarrow> int \<Rightarrow> (int \<times> int) option" where
  "adjustImageSize originalWidth originalHeight blockSize =
     (if blockSize = 0 then None
      else
        (let adjustedWidth = (originalWidth div blockSize) * blockSize;
             adjustedHeight = (originalHeight div blockSize) * blockSize
         in Some (max adjustedWidth blockSize, max adjustedHeight blockSize)))"

subsection \<open>\<^verbatim>\<open>pixelateImage\<close>\<close>

text \<open>
  The canvas is modelled by its bitmap. The two platform facilities the function uses are
  parameters: \<open>ctx\<close> tells whether both 2D contexts could be obtained, and \<open>drawImage src w h\<close>
  is the bitmap of a cleared \<open>w \<times> h\<close> canvas after \<open>src\<close> was drawn onto it scaled to
  \<open>w \<times> h\<close> with image smoothing disabled. The function returns the canvas as the call leaves it.
\<close>

definition pixelateImage ::
  "(ImageData \<Rightarrow> nat \<Rightarrow> nat \<Rightarrow> ImageData) \<Rightarrow> bool \<Rightarrow> ImageData \<Rightarrow> int \<Rightarrow> ImageData" where
  "pixelateImage drawImage ctx canvas blockSize =
     (if blockSize \<le> 1 then canvas
      else
        (let originalWidth = width canvas;
             originalHeight = height canvas;
             smallWidth = nat (max 1 (int originalWidth div blockSize));
             smallHeight = nat (max 1 (int originalHeight div blockSize))
         in if \<not> ctx then canvas
            else
              (let tempCanvas = drawImage canvas smallWidth smallHeight
               in drawImage tempCanvas originalWidth originalHeight)))"

subsection \<open>\<^verbatim>\<open>findNearestPaletteColor\<close>\<close>

text \<open>The running minimum starts at \<^verbatim>\<open>Infinity\<close>.\<close>

datatype running_min = Infinity | Finite number

fun below :: "number \<Rightarrow> running_min \<Rightarrow> bool" where
  "below distance Infinity \<longleftrightarrow> distance \<noteq> None"
| "below distance (Finite m) \<longleftrightarrow> less_num distance m"

definition distance_to :: "number \<Rightarrow> number \<Rightarrow> number \<Rightarrow> rgb \<Rightarrow> number" where
  "distance_to r g b color =
     (case color of (c0, c1, c2) \<Rightarrow>
        add (add (Math_pow2 (sub r (num c0))) (Math_pow2 (sub g (num c1))))
            (Math_pow2 (sub b (num c2))))"

text \<open>The \<^verbatim>\<open>for (const color of palette)\<close> loop, with its two variables as accumulators.\<close>

fun nearest_loop ::
  "number \<Rightarrow> number \<Rightarrow> number \<Rightarrow> rgb list \<Rightarrow> running_min \<Rightarrow> rgb option \<Rightarrow> rgb option" where
  "nearest_loop r g b [] minDistance nearestColor = nearestColor"
| "nearest_loop r g b (color # rest) minDistance nearestColor =
     (let distance = distance_to r g b color
      in if below distance minDistance
         then nearest_loop r g b rest (Finite distance) (Some color)
         else nearest_loop r g b rest minDistance nearestColor)"

text \<open>\<^verbatim>\<open>palette[0]\<close> is \<open>undefined\<close> (here \<open>None\<close>) for the empty palette.\<close>

definition findNearestPaletteColor ::
  "number \<Rightarrow> number \<Rightarrow> number \<Rightarrow> rgb list \<Rightarrow> rgb option" where
  "findNearestPaletteColor r g b palette =
     nearest_loop r g b palette Infinity (case palette of [] \<Rightarrow> None | c # _ \<Rightarrow> Some c)"

subsection \<open>Loops over the buffer\<close>

text \<open>The values \<open>i = 0, 4, 8, \<dots>\<close> below \<open>n\<close> that \<^verbatim>\<open>for (let i = 0; i < n; i += 4)\<close> visits.\<close>

definition pixel_offsets :: "nat \<Rightarrow> nat list" where
  "pixel_offsets n = map (\<lambda>k. 4 * k) [0..<(n + 3) div 4]"

text \<open>A loop whose body may throw: the first error ends it.\<close>

fun for_each :: "nat list \<Rightarrow> (nat \<Rightarrow> 's \<Rightarrow> error + 's) \<Rightarrow> 's \<Rightarrow> error + 's" where
  "for_each [] body s = Inr s"
| "for_each (i # rest) body s =
     (case body i s of Inl e \<Rightarrow> Inl e | Inr s' \<Rightarrow> for_each rest body s')"

subsection \<open>\<^verbatim>\<open>flattenAlpha\<close>\<close>

text \<open>The blend of one channel with the white background, \<open>backgroundColor = 255\<close>.\<close>

definition blend :: "number \<Rightarrow> number \<Rightarrow> number" where
  "blend c alpha = Math_round (add (mul c alpha) (mul (num 255) (sub (num 1) alpha)))"

definition flatten_pixel :: "nat \<Rightarrow> byte list \<Rightarrow> byte list" where
  "flatten_pixel i d =
     (let r = load d i;
          g = load d (i + 1);
          b = load d (i + 2);
          a = load d (i + 3)
      in if less_num a (num 255)
         then
           (let alpha = divide_num a (num 255);
                d = store d i (blend r alpha);
                d = store d (i + 1) (blend g alpha);
                d = store d (i + 2) (blend b alpha);
                d = store d (i + 3) (num 255)
            in d)
         else d)"

text \<open>The function mutates \<open>imageData.data\<close>; the model returns the image after the call.\<close>

definition flattenAlpha :: "ImageData \<Rightarrow> ImageData" where
  "flattenAlpha imageData =
     imageData\<lparr>data := fold flatten_pixel (pixel_offsets (length (data imageData))) (data imageData)\<rparr>"

subsection \<open>\<^verbatim>\<open>quantizeToNearestColor\<close>\<close>

text \<open>Destructuring \<^verbatim>\<open>const [r, g, b] = undefined\<close> throws a \<^verbatim>\<open>TypeError\<close>.\<close>

definition quantize_pixel :: "rgb list \<Rightarrow> nat \<Rightarrow> byte list \<Rightarrow> error + byte list" where
  "quantize_pixel palette i d =
     (case findNearestPaletteColor (load d i) (load d (i + 1)) (load d (i + 2)) palette of
        None \<Rightarrow> Inl TypeError
      | Some (r, g, b) \<Rightarrow>
          (let d = store d i (num r);
               d = store d (i + 1) (num g);
               d = store d (i + 2) (num b)
           in Inr d))"

definition quantizeToNearestColor :: "ImageData \<Rightarrow> rgb list \<Rightarrow> error + ImageData" where
  "quantizeToNearestColor imageData palette =
     (case for_each (pixel_offsets (length (data imageData))) (quantize_pixel palette)
             (data imageData) of
        Inl e \<Rightarrow> Inl e
      | Inr d \<Rightarrow> Inr (imageData\<lparr>data := d\<rparr>))"

subsection \<open>\<^verbatim>\<open>floydSteinbergDither\<close>\<close>

text \<open>
  One statement \<^verbatim>\<open>data[j] = Math.max(0, Math.min(255, data[j] + err * k / 16))\<close>
  of the error diffusion.
\<close>

definition diffuse :: "byte list \<Rightarrow> nat \<Rightarrow> number \<Rightarrow> int \<Rightarrow> byte list" where
  "diffuse d j err k =
     store d j
       (Math_max (num 0)
          (Math_min (num 255) (add (load d j) (divide_num (mul err (num k)) (num 16)))))"

text \<open>The body of the inner loop, for the pixel in column \<open>x\<close> of row \<open>y\<close>.\<close>

definition dither_pixel ::
  "nat \<Rightarrow> nat \<Rightarrow> rgb list \<Rightarrow> nat \<Rightarrow> nat \<Rightarrow> byte list \<Rightarrow> error + byte list" where
  "dither_pixel w h palette y x d =
     (let idx = (y * w + x) * 4;
          oldR = load d idx;
          oldG = load d (idx + 1);
          oldB = load d (idx + 2)
      in case findNearestPaletteColor oldR oldG oldB palette of
           None \<Rightarrow> Inl TypeError
         | Some (newR, newG, newB) \<Rightarrow>
             (let d = store d idx (num newR);
                  d = store d (idx + 1) (num newG);
                  d = store d (idx + 2) (num newB);
                  errR = sub oldR (num newR);
                  errG = sub oldG (num newG);
                  errB = sub oldB (num newB);
                  d = (if x + 1 < w
                       then (let rightIdx = (y * w + x + 1) * 4;
                                 d = diffuse d rightIdx errR 7;
                                 d = diffuse d (rightIdx + 1) errG 7;
                                 d = diffuse d (rightIdx + 2) errB 7
                             in d)
                       else d);
                  d = (if y + 1 < h
                       then (let d = (if x > 0
                                      then (let bottomLeftIdx = ((y + 1) * w + x - 1) * 4;
                                                d = diffuse d bottomLeftIdx errR 3;
                                                d = diffuse d (bottomLeftIdx + 1) errG 3;
                                                d = diffuse d (bottomLeftIdx + 2) errB 3
                                            in d)
                                      else d);
                                 bottomIdx = ((y + 1) * w + x) * 4;
                                 d = diffuse d bottomIdx errR 5;
                                 d = diffuse d (bottomIdx + 1) errG 5;
                                 d = diffuse d (bottomIdx + 2) errB 5;
                                 d = (if x + 1 < w
                                      then (let bottomRightIdx = ((y + 1) * w + x + 1) * 4;
                                                d = diffuse d bottomRightIdx errR 1;
                                                d = diffuse d (bottomRightIdx + 1) errG 1;
                                                d = diffuse d (bottomRightIdx + 2) errB 1
                                            in d)
                                      else d)
                             in d)
                       else d)
              in Inr d))"

text \<open>The two nested loops, rows outermost.\<close>

definition dither_rows :: "nat \<Rightarrow> nat \<Rightarrow> rgb list \<Rightarrow> byte list \<Rightarrow> error + byte list" where
  "dither_rows w h palette d =
     for_each [0..<h] (\<lambda>y d. for_each [0..<w] (dither_pixel w h palette y) d) d"

text \<open>
  The constructor \<^verbatim>\<open>new ImageData(data, width, height)\<close> rejects a length that is not a
  non-zero multiple of 4 and dimensions that do not match the length.
\<close>

definition new_ImageData :: "byte list \<Rightarrow> nat \<Rightarrow> nat \<Rightarrow> error + ImageData" where
  "new_ImageData d w h =
     (if length d = 0 \<or> length d mod 4 \<noteq> 0 then Inl InvalidStateError
      else if w = 0 \<or> (length d div 4) mod w \<noteq> 0 \<or> (length d div 4) div w \<noteq> h
      then Inl IndexSizeError
      else Inr \<lparr>data = d, width = w, height = h\<rparr>)"

text \<open>The function works on a copy of \<open>imageData.data\<close> and returns a new image.\<close>

definition floydSteinbergDither :: "ImageData \<Rightarrow> rgb list \<Rightarrow> error + ImageData" where
  "floydSteinbergDither imageData palette =
     (case dither_rows (width imageData) (height imageData) palette (data imageData) of
        Inl e \<Rightarrow> Inl e
      | Inr d \<Rightarrow> new_ImageData d (width imageData) (height imageData))"

section \<open>Reference notions used in the statements\<close>

text \<open>The squared Euclidean distance between a query and a palette entry, on integers.\<close>

definition sq_dist :: "int \<Rightarrow> int \<Rightarrow> int \<Rightarrow> rgb \<Rightarrow> int" where
  "sq_dist r g b color =
     (case color of (c0, c1, c2) \<Rightarrow> (r - c0)\<^sup>2 + (g - c1)\<^sup>2 + (b - c2)\<^sup>2)"

text \<open>
  Index \<open>i\<close> is the first minimum of the palette for a query: its entry is at least as near
  as every entry, and strictly nearer than every entry before it.
\<close>

definition first_minimum :: "int \<Rightarrow> int \<Rightarrow> int \<Rightarrow> rgb list \<Rightarrow> nat \<Rightarrow> bool" where
  "first_minimum r g b palette i \<longleftrightarrow>
     i < length palette \<and>
     (\<forall>j < length palette. sq_dist r g b (palette ! i) \<le> sq_dist r g b (palette ! j)) \<and>
     (\<forall>j < i. sq_dist r g b (palette ! i) < sq_dist r g b (palette ! j))"

text \<open>
  A loop body is pixelwise when it keeps the length, writes only to the four bytes of the
  pixel it is called on, and what it writes there depends only on those four bytes.
\<close>

definition pixelwise :: "(nat \<Rightarrow> byte list \<Rightarrow> byte list) \<Rightarrow> bool" where
  "pixelwise step \<longleftrightarrow>
     (\<forall>i d. length (step i d) = length d) \<and>
     (\<forall>i d j. j < length d \<longrightarrow> j div 4 \<noteq> i \<longrightarrow> step (4 * i) d ! j = d ! j) \<and>
     (\<forall>i d d' j. length d' = length d \<longrightarrow>
        (\<forall>k<length d. k div 4 = i \<longrightarrow> d' ! k = d ! k) \<longrightarrow>
        j < length d \<longrightarrow> j div 4 = i \<longrightarrow> step (4 * i) d' ! j = step (4 * i) d ! j)"

text \<open>A palette as the pipeline builds it: not empty, every channel an integer in \<open>[0, 255]\<close>.\<close>

definition valid_palette :: "rgb list \<Rightarrow> bool" where
  "valid_palette palette \<longleftrightarrow>
     palette \<noteq> [] \<and>
     list_all (\<lambda>(r, g, b). 0 \<le> r \<and> r \<le> 255 \<and> 0 \<le> g \<and> g \<le> 255 \<and> 0 \<le> b \<and> b \<le> 255) palette"

text \<open>Channel \<open>c\<close> (0, 1 or 2) of a triple.\<close>

definition channel :: "'a \<times> 'a \<times> 'a \<Rightarrow> nat \<Rightarrow> 'a" where
  "channel t c = (case t of (r, g, b) \<Rightarrow> if c = 0 then r else if c = 1 then g else b)"

text \<open>The value the diffusion computes for a target holding \<open>v\<close>: \<open>v + err * k / 16\<close> clamped to
  \<open>[0, 255]\<close>, before the array rounds it.\<close>

definition diffused :: "number \<Rightarrow> number \<Rightarrow> int \<Rightarrow> number" where
  "diffused v err k =
     Math_max (num 0) (Math_min (num 255) (add v (divide_num (mul err (num k)) (num 16))))"

text \<open>The three writes of a colour to pixel \<open>q\<close>, and the three diffusion statements for one
  neighbour pixel \<open>q\<close>.\<close>

definition store3 :: "byte list \<Rightarrow> nat \<Rightarrow> rgb \<Rightarrow> byte list" where
  "store3 d q color =
     (case color of (r, g, b) \<Rightarrow>
        store (store (store d (4 * q) (num r)) (4 * q + 1) (num g)) (4 * q + 2) (num b))"

definition diffuse3 :: "byte list \<Rightarrow> nat \<Rightarrow> number \<times> number \<times> number \<Rightarrow> int \<Rightarrow> byte list" where
  "diffuse3 d q err k =
     (case err of (errR, errG, errB) \<Rightarrow>
        diffuse (diffuse (diffuse d (4 * q) errR k) (4 * q + 1) errG k) (4 * q + 2) errB k)"

text \<open>The body of the inner loop once the nearest colour \<open>new\<close> is known, with the pixels named
  by their raster index \<open>p = y * width + x\<close>.\<close>

definition dither_step :: "nat \<Rightarrow> nat \<Rightarrow> nat \<Rightarrow> nat \<Rightarrow> rgb \<Rightarrow> byte list \<Rightarrow> byte list" where
  "dither_step w h y x new d =
     (let p = y * w + x;
          err = (case new of (newR, newG, newB) \<Rightarrow>
                   (sub (load d (4 * p)) (num newR), sub (load d (4 * p + 1)) (num newG),
                    sub (load d (4 * p + 2)) (num newB)));
          d = store3 d p new;
          d = (if x + 1 < w then diffuse3 d (p + 1) err 7 else d);
          d = (if y + 1 < h \<and> 0 < x then diffuse3 d (p + w - 1) err 3 else d);
          d = (if y + 1 < h then diffuse3 d (p + w) err 5 else d);
          d = (if y + 1 < h \<and> x + 1 < w then diffuse3 d (p + w + 1) err 1 else d)
      in d)"

text \<open>The colour of pixel \<open>q\<close> of a buffer.\<close>

definition rgb_at :: "byte list \<Rightarrow> nat \<Rightarrow> rgb" where
  "rgb_at d q = (uint (d ! (4 * q)), uint (d ! (4 * q + 1)), uint (d ! (4 * q + 2)))"

section \<open>Properties\<close>

subsection \<open>Numbers\<close>

lemma num_simps [simp]:
  "num a \<noteq> None"
  "less_num (num a) (num c) \<longleftrightarrow> a < c"
  "num a = num c \<longleftrightarrow> a = c"
  by (simp_all add: num_def)

subsection \<open>Size adjustment\<close>

text \<open>
  Claim C8. For a block size of at least 1 and any source dimensions, \<open>adjustImageSize\<close>
  returns \<open>max (floor (originalWidth / blockSize) * blockSize) blockSize\<close> as the width and
  the same expression of the height as the height; both are multiples of the block size
  and at least the block size.
\<close>

theorem adjustImageSize_block_aligned:
  assumes "1 \<le> blockSize"
  shows "\<exists>w h. adjustImageSize originalWidth originalHeight blockSize = Some (w, h) \<and>
           w = max ((originalWidth div blockSize) * blockSize) blockSize \<and>
           h = max ((originalHeight div blockSize) * blockSize) blockSize \<and>
           blockSize dvd w \<and> blockSize dvd h \<and> blockSize \<le> w \<and> blockSize \<le> h"
  using assms by (auto simp: adjustImageSize_def Let_def max_def)

theorem adjustImageSize_block_aligned_witness:
  "(1::int) \<le> 4 \<and> adjustImageSize 10 3 4 = Some (8, 4) \<and> (4::int) dvd 8 \<and> (4::int) dvd 4"
  using adjustImageSize_block_aligned [of 4 10 3] by (simp add: adjustImageSize_def)

subsection \<open>Pixelation\<close>

text \<open>
  Claim C9. Called with a block size of at most 1, \<open>pixelateImage\<close> leaves the canvas, and so
  every pixel of it, as it was, whatever the platform's scaling does.
\<close>

theorem pixelateImage_small_block_noop:
  "blockSize \<le> 1 \<Longrightarrow> pixelateImage drawImage ctx canvas blockSize = canvas"
  by (simp add: pixelateImage_def)

theorem pixelateImage_small_block_noop_witness:
  "(1::int) \<le> 1 \<and>
   pixelateImage (\<lambda>src w h. \<lparr>data = [], width = w, height = h\<rparr>) True
     \<lparr>data = [1, 2, 3, 4], width = 1, height = 1\<rparr> 1 =
   \<lparr>data = [1, 2, 3, 4], width = 1, height = 1\<rparr>"
  using pixelateImage_small_block_noop
    [of 1 "\<lambda>src w h. \<lparr>data = [], width = w, height = h\<rparr>" True
        "\<lparr>data = [1, 2, 3, 4], width = 1, height = 1\<rparr>"]
  by simp

subsection \<open>Nearest palette colour\<close>

lemma distance_to_num:
  "distance_to (num r) (num g) (num b) color = num (sq_dist r g b color)"
  by (cases color)
     (simp add: distance_to_def sq_dist_def num_def add_def sub_def mul_def Math_pow2_def
        power2_eq_square)

lemma first_minimum_snoc_new:
  assumes "first_minimum r g b pre i" "sq_dist r g b c < sq_dist r g b (pre ! i)"
  shows "first_minimum r g b (pre @ [c]) (length pre)"
  using assms unfolding first_minimum_def
  by (auto simp: nth_append less_Suc_eq)

lemma first_minimum_snoc_keep:
  assumes "first_minimum r g b pre i" "\<not> sq_dist r g b c < sq_dist r g b (pre ! i)"
  shows "first_minimum r g b (pre @ [c]) i"
  using assms unfolding first_minimum_def
  by (auto simp: nth_append less_Suc_eq)

text \<open>The loop invariant: the accumulators hold the first minimum of the entries seen.\<close>

lemma nearest_loop_first_minimum:
  "first_minimum r g b pre i \<Longrightarrow>
   \<exists>k. nearest_loop (num r) (num g) (num b) cs (Finite (num (sq_dist r g b (pre ! i))))
          (Some (pre ! i)) = Some ((pre @ cs) ! k) \<and>
       first_minimum r g b (pre @ cs) k"
proof (induction cs arbitrary: pre i)
  case Nil
  then show ?case by auto
next
  case (Cons c cs)
  show ?case
  proof (cases "sq_dist r g b c < sq_dist r g b (pre ! i)")
    case True
    from first_minimum_snoc_new [OF Cons.prems True]
    have fm: "first_minimum r g b (pre @ [c]) (length pre)" .
    from Cons.IH [OF fm] True show ?thesis
      by (simp add: distance_to_num Let_def)
  next
    case False
    from first_minimum_snoc_keep [OF Cons.prems False]
    have fm: "first_minimum r g b (pre @ [c]) i" .
    have "i < length pre" using Cons.prems by (simp add: first_minimum_def)
    with Cons.IH [OF fm] False show ?thesis
      by (simp add: distance_to_num nth_append Let_def)
  qed
qed

lemma findNearest_first_minimum:
  assumes "palette \<noteq> []"
  shows "\<exists>i. findNearestPaletteColor (num r) (num g) (num b) palette = Some (palette ! i) \<and>
             first_minimum r g b palette i"
proof -
  from assms obtain c cs where p: "palette = c # cs" by (cases palette) auto
  have fm: "first_minimum r g b [c] 0" by (simp add: first_minimum_def)
  from nearest_loop_first_minimum [OF fm, of cs]
  show ?thesis by (simp add: p findNearestPaletteColor_def distance_to_num Let_def)
qed

text \<open>
  Claim C4. For every integer query and every non-empty palette, \<open>findNearestPaletteColor\<close>
  returns the entry at the first minimum of the squared Euclidean distance: no entry is
  nearer, and every entry at a lower index is strictly farther. For the palette
  \<open>[[0,0,0],[10,10,10]]\<close> and the query \<open>(5,5,5)\<close> the result is \<open>[0,0,0]\<close>.
\<close>

theorem findNearestPaletteColor_first_minimum:
  "(palette \<noteq> [] \<longrightarrow>
     (\<exists>i. findNearestPaletteColor (num r) (num g) (num b) palette = Some (palette ! i) \<and>
          first_minimum r g b palette i)) \<and>
   findNearestPaletteColor (num 5) (num 5) (num 5) [(0, 0, 0), (10, 10, 10)] = Some (0, 0, 0)"
proof
  show "palette \<noteq> [] \<longrightarrow>
     (\<exists>i. findNearestPaletteColor (num r) (num g) (num b) palette = Some (palette ! i) \<and>
          first_minimum r g b palette i)"
    using findNearest_first_minimum by blast
  show "findNearestPaletteColor (num 5) (num 5) (num 5) [(0, 0, 0), (10, 10, 10)] = Some (0, 0, 0)"
    by (simp add: findNearestPaletteColor_def distance_to_num sq_dist_def Let_def)
qed

theorem findNearestPaletteColor_first_minimum_witness:
  "[(0, 0, 0), (10, 10, 10)] \<noteq> ([] :: rgb list) \<and>
   (\<exists>i. findNearestPaletteColor (num 5) (num 5) (num 5) [(0, 0, 0), (10, 10, 10)] =
          Some ([(0, 0, 0), (10, 10, 10)] ! i) \<and>
        first_minimum 5 5 5 [(0, 0, 0), (10, 10, 10)] i)"
proof -
  have ne: "[(0, 0, 0), (10, 10, 10)] \<noteq> ([] :: rgb list)" by simp
  from findNearestPaletteColor_first_minimum [of "[(0, 0, 0), (10, 10, 10)]" 5 5 5] ne
  show ?thesis by blast
qed

subsection \<open>Reading and writing bytes\<close>

lemma length_store [simp]: "length (store d i v) = length d"
  by (simp add: store_def)

lemma nth_store: "store d i v ! j = (if j = i \<and> i < length d then ToUint8Clamp v else d ! j)"
  by (simp add: store_def)

lemma load_in_range [simp]: "i < length d \<Longrightarrow> load d i = num (uint (d ! i))"
  by (simp add: load_def)

lemma load_out_of_range [simp]: "\<not> i < length d \<Longrightarrow> load d i = None"
  by (simp add: load_def)

lemma uint_byte_le: "uint (x :: byte) \<le> 255"
  using uint_bounded [of x] by simp

lemma ToUint8Clamp_num: "0 \<le> n \<Longrightarrow> n \<le> 255 \<Longrightarrow> ToUint8Clamp (num n) = word_of_int n"
  by (simp add: ToUint8Clamp_def num_def Let_def min_def max_def)

lemma uint_ToUint8Clamp_num: "0 \<le> n \<Longrightarrow> n \<le> 255 \<Longrightarrow> uint (ToUint8Clamp (num n)) = n"
  by (simp add: ToUint8Clamp_num uint_word_of_int take_bit_eq_mod)

lemma ToUint8Clamp_uint [simp]: "ToUint8Clamp (num (uint (x :: byte))) = x"
  by (simp add: ToUint8Clamp_num uint_byte_le)

subsection \<open>Alpha flattening\<close>

lemma blend_num:
  "blend (num c) (divide_num (num a) (num 255)) =
     num (round (of_int c * (of_int a / 255) + 255 * (1 - of_int a / 255) :: rat))"
  by (simp add: blend_def num_def Math_round_def add_def mul_def sub_def divide_num_def round_def)

lemma blend_range:
  assumes "0 \<le> c" "c \<le> 255" "0 \<le> a" "a \<le> 255"
  shows "0 \<le> round (of_int c * (of_int a / 255) + 255 * (1 - of_int a / 255) :: rat)"
    and "round (of_int c * (of_int a / 255) + 255 * (1 - of_int a / 255) :: rat) \<le> 255"
proof -
  let ?t = "of_int a / 255 :: rat"
  let ?x = "of_int c * ?t + 255 * (1 - ?t)"
  have t: "0 \<le> ?t" "?t \<le> 1" using assms by simp_all
  have "of_int c * ?t \<le> 255 * ?t"
    using assms t by (intro mult_right_mono) simp_all
  then have hi: "?x \<le> 255" by (simp add: algebra_simps)
  have "0 \<le> of_int c * ?t" using assms t by simp
  moreover have "0 \<le> 255 * (1 - ?t)" using t by simp
  ultimately have lo: "0 \<le> ?x" by linarith
  from lo show "0 \<le> round ?x" by (simp add: round_def)
  from hi have "?x + 1 / 2 < 256" by linarith
  then have "\<lfloor>?x + 1 / 2\<rfloor> < 256" by (simp add: floor_less_iff)
  then show "round ?x \<le> 255" by (simp add: round_def)
qed





subsection \<open>Loops with a pixelwise body\<close>

lemma pixelwise_length: "pixelwise step \<Longrightarrow> length (step i d) = length d"
  by (simp add: pixelwise_def)

lemma pixelwise_frame:
  "pixelwise step \<Longrightarrow> j < length d \<Longrightarrow> j div 4 \<noteq> i \<Longrightarrow> step (4 * i) d ! j = d ! j"
  by (simp add: pixelwise_def)

lemma pixelwise_local:
  "pixelwise step \<Longrightarrow> length d' = length d \<Longrightarrow>
   (\<forall>k<length d. k div 4 = i \<longrightarrow> d' ! k = d ! k) \<Longrightarrow>
   j < length d \<Longrightarrow> j div 4 = i \<Longrightarrow> step (4 * i) d' ! j = step (4 * i) d ! j"
  unfolding pixelwise_def by blast

lemma pixelwise_fold_length_any:
  "pixelwise step \<Longrightarrow> length (fold step xs d) = length d"
  by (induction xs arbitrary: d) (simp_all add: pixelwise_length)

text \<open>After the first \<open>m\<close> pixels, each of them holds what the body makes of the original one.\<close>

lemma pixelwise_fold_prefix:
  assumes pw: "pixelwise step"
  shows "length (fold step (map (\<lambda>k. 4 * k) [0..<m]) d) = length d \<and>
         (\<forall>j<length d. fold step (map (\<lambda>k. 4 * k) [0..<m]) d ! j =
            (if j div 4 < m then step (4 * (j div 4)) d ! j else d ! j))"
proof (induction m)
  case 0
  show ?case by simp
next
  case (Suc m)
  let ?d' = "fold step (map (\<lambda>k. 4 * k) [0..<m]) d"
  have l: "length ?d' = length d" using Suc by simp
  have eq: "fold step (map (\<lambda>k. 4 * k) [0..<Suc m]) d = step (4 * m) ?d'" by simp
  have "step (4 * m) ?d' ! j =
          (if j div 4 < Suc m then step (4 * (j div 4)) d ! j else d ! j)"
    if j: "j < length d" for j
  proof (cases "j div 4 = m")
    case True
    have "\<forall>k<length d. k div 4 = m \<longrightarrow> ?d' ! k = d ! k" using Suc by simp
    from pixelwise_local [OF pw l this j True] True show ?thesis by simp
  next
    case False
    from pixelwise_frame [OF pw, of j ?d' m] j l False have "step (4 * m) ?d' ! j = ?d' ! j"
      by simp
    with Suc j False show ?thesis by (auto simp: less_Suc_eq)
  qed
  with l show ?case by (simp only: eq pixelwise_length [OF pw]) simp
qed

lemma div4_offsets: "j < n \<Longrightarrow> j div 4 < (n + 3) div (4::nat)"
  by presburger

lemma pixelwise_fold_length:
  assumes "pixelwise step"
  shows "length (fold step (pixel_offsets (length d)) d) = length d"
  unfolding pixel_offsets_def using pixelwise_fold_prefix [OF assms] by (rule conjunct1)

lemma pixelwise_fold_nth:
  assumes "pixelwise step" and j: "j < length d"
  shows "fold step (pixel_offsets (length d)) d ! j = step (4 * (j div 4)) d ! j"
proof -
  from pixelwise_fold_prefix [OF assms(1), of "(length d + 3) div 4" d]
  have "\<forall>j<length d. fold step (pixel_offsets (length d)) d ! j =
            (if j div 4 < (length d + 3) div 4 then step (4 * (j div 4)) d ! j else d ! j)"
    unfolding pixel_offsets_def by (rule conjunct2)
  with j div4_offsets [OF j] show ?thesis by simp
qed

text \<open>A body that is idempotent on each pixel makes an idempotent loop.\<close>

lemma pixelwise_fold_idem:
  assumes pw: "pixelwise step"
    and idem: "\<And>i d. step (4 * i) (step (4 * i) d) = step (4 * i) d"
  shows "fold step (pixel_offsets (length d)) (fold step (pixel_offsets (length d)) d) =
         fold step (pixel_offsets (length d)) d"
proof -
  let ?out = "fold step (pixel_offsets (length d)) d"
  have lo: "length ?out = length d" by (rule pixelwise_fold_length_any [OF pw])
  show "fold step (pixel_offsets (length d)) ?out = ?out"
  proof (rule nth_equalityI)
    show "length (fold step (pixel_offsets (length d)) ?out) = length ?out"
      by (rule pixelwise_fold_length_any [OF pw])
  next
    fix j assume "j < length (fold step (pixel_offsets (length d)) ?out)"
    then have j: "j < length d" by (simp only: pixelwise_fold_length_any [OF pw])
    then have j': "j < length ?out" by (simp only: lo)
    let ?q = "j div 4"
    have agree: "\<forall>k<length (step (4 * ?q) d). k div 4 = ?q \<longrightarrow> ?out ! k = step (4 * ?q) d ! k"
      using pixelwise_fold_nth [OF pw, of _ d] by (simp add: pixelwise_length [OF pw])
    have "fold step (pixel_offsets (length ?out)) ?out ! j = step (4 * ?q) ?out ! j"
      by (rule pixelwise_fold_nth [OF pw j'])
    then have "fold step (pixel_offsets (length d)) ?out ! j = step (4 * ?q) ?out ! j"
      by (simp only: lo)
    also have "\<dots> = step (4 * ?q) (step (4 * ?q) d) ! j"
      by (rule pixelwise_local [OF pw _ agree]) (simp_all add: lo pixelwise_length [OF pw] j)
    also have "\<dots> = step (4 * ?q) d ! j" by (simp only: idem)
    also have "\<dots> = ?out ! j" by (rule pixelwise_fold_nth [OF pw j, symmetric])
    finally show "fold step (pixel_offsets (length d)) ?out ! j = ?out ! j" .
  qed
qed

lemma length_flatten_pixel [simp]: "length (flatten_pixel i d) = length d"
  by (simp add: flatten_pixel_def Let_def)

lemma flatten_pixel_out: "\<not> i + 3 < length d \<Longrightarrow> flatten_pixel i d = d"
  by (simp add: flatten_pixel_def Let_def)

lemma flatten_pixel_in:
  "i + 3 < length d \<Longrightarrow>
   flatten_pixel i d =
     (if uint (d ! (i + 3)) < 255
      then d[i := ToUint8Clamp (blend (num (uint (d ! i))) (divide_num (num (uint (d ! (i + 3)))) (num 255))),
             i + 1 := ToUint8Clamp (blend (num (uint (d ! (i + 1)))) (divide_num (num (uint (d ! (i + 3)))) (num 255))),
             i + 2 := ToUint8Clamp (blend (num (uint (d ! (i + 2)))) (divide_num (num (uint (d ! (i + 3)))) (num 255))),
             i + 3 := 255]
      else d)"
  by (simp add: flatten_pixel_def Let_def store_def ToUint8Clamp_num)

lemma flatten_pixel_frame:
  "j div 4 \<noteq> i \<Longrightarrow> flatten_pixel (4 * i) d ! j = d ! j"
  by (cases "4 * i + 3 < length d") (auto simp: flatten_pixel_in flatten_pixel_out)

lemma flatten_pixel_local:
  assumes "length d' = length d" "\<forall>k<length d. k div 4 = i \<longrightarrow> d' ! k = d ! k"
    "j < length d" "j div 4 = i"
  shows "flatten_pixel (4 * i) d' ! j = flatten_pixel (4 * i) d ! j"
proof (cases "4 * i + 3 < length d")
  case False
  with assms show ?thesis by (simp add: flatten_pixel_out)
next
  case True
  with assms(2) have "d' ! (4 * i) = d ! (4 * i)" "d' ! (4 * i + 1) = d ! (4 * i + 1)"
    "d' ! (4 * i + 2) = d ! (4 * i + 2)" "d' ! (4 * i + 3) = d ! (4 * i + 3)"
    by simp_all
  with True assms show ?thesis
    by (simp add: flatten_pixel_in nth_list_update)
qed




lemma pixelwise_flatten_pixel: "pixelwise flatten_pixel"
proof -
  have "\<forall>i d. length (flatten_pixel i d) = length d" by simp
  moreover have "\<forall>i d j. j < length d \<longrightarrow> j div 4 \<noteq> i \<longrightarrow> flatten_pixel (4 * i) d ! j = d ! j"
    by (simp add: flatten_pixel_frame)
  moreover have "\<forall>i d d' j. length d' = length d \<longrightarrow>
        (\<forall>k<length d. k div 4 = i \<longrightarrow> d' ! k = d ! k) \<longrightarrow>
        j < length d \<longrightarrow> j div 4 = i \<longrightarrow>
        flatten_pixel (4 * i) d' ! j = flatten_pixel (4 * i) d ! j"
    by (intro allI impI) (rule flatten_pixel_local)
  ultimately show ?thesis unfolding pixelwise_def by (intro conjI)
qed

lemma length_flattenAlpha: "length (data (flattenAlpha img)) = length (data img)"
  unfolding flattenAlpha_def by (simp add: pixelwise_fold_length [OF pixelwise_flatten_pixel])

lemma flattenAlpha_nth:
  "j < length (data img) \<Longrightarrow>
     data (flattenAlpha img) ! j = flatten_pixel (4 * (j div 4)) (data img) ! j"
  unfolding flattenAlpha_def by (simp add: pixelwise_fold_nth [OF pixelwise_flatten_pixel])

lemma pixel_index_div [simp]:
  "(4 * p) div 4 = (p::nat)" "(4 * p + 1) div 4 = p" "(4 * p + 2) div 4 = p" "(4 * p + 3) div 4 = p"
  by simp_all

lemma uint_blend:
  "uint (ToUint8Clamp (blend (num (uint (c :: byte))) (divide_num (num (uint (a :: byte))) (num 255)))) =
     round (of_int (uint c) * (of_int (uint a) / 255) + 255 * (1 - of_int (uint a) / 255) :: rat)"
  unfolding blend_num
  by (rule uint_ToUint8Clamp_num; rule blend_range) (simp_all add: uint_byte_le)

lemma flatten_pixel_opaque:
  "i + 3 < length d \<Longrightarrow> d ! (i + 3) = 255 \<Longrightarrow> flatten_pixel i d = d"
  by (simp add: flatten_pixel_in)

lemma flatten_pixel_alpha:
  "i + 3 < length d \<Longrightarrow> uint (d ! (i + 3)) < 255 \<Longrightarrow> flatten_pixel i d ! (i + 3) = 255"
  by (simp add: flatten_pixel_in)

lemma flatten_pixel_channel:
  assumes "i + 3 < length d" "uint (d ! (i + 3)) < 255" "c < 3"
  shows "uint (flatten_pixel i d ! (i + c)) =
     round (of_int (uint (d ! (i + c))) * (of_int (uint (d ! (i + 3))) / 255)
            + 255 * (1 - of_int (uint (d ! (i + 3))) / 255) :: rat)"
proof -
  from assms(3) consider "c = 0" | "c = 1" | "c = 2" by linarith
  then show ?thesis
  proof cases
    case 1
    with assms show ?thesis by (simp only: flatten_pixel_in if_True) (simp add: uint_blend)
  next
    case 2
    with assms show ?thesis by (simp only: flatten_pixel_in if_True) (simp add: uint_blend)
  next
    case 3
    with assms show ?thesis by (simp only: flatten_pixel_in if_True) (simp add: uint_blend)
  qed
qed

text \<open>
  Claim C6. For every pixel \<open>p\<close> of the buffer: when its alpha \<open>a\<close> is below 255, \<open>flattenAlpha\<close>
  sets each of R, G and B to \<open>round (channel * (a / 255) + 255 * (1 - a / 255))\<close>, the blend
  with the white background, and the alpha to 255; when its alpha is 255, its four bytes stay
  as they were. Length and dimensions of the image are kept.
\<close>

theorem flattenAlpha_composites_on_white:
  assumes "4 * p + 3 < length (data img)"
  shows "let d = data img;
             out = data (flattenAlpha img);
             r = uint (d ! (4 * p));
             g = uint (d ! (4 * p + 1));
             b = uint (d ! (4 * p + 2));
             a = uint (d ! (4 * p + 3))
         in length out = length d \<and>
            width (flattenAlpha img) = width img \<and> height (flattenAlpha img) = height img \<and>
            (a < 255 \<longrightarrow>
               uint (out ! (4 * p)) = round (of_int r * (of_int a / 255) + 255 * (1 - of_int a / 255) :: rat) \<and>
               uint (out ! (4 * p + 1)) = round (of_int g * (of_int a / 255) + 255 * (1 - of_int a / 255) :: rat) \<and>
               uint (out ! (4 * p + 2)) = round (of_int b * (of_int a / 255) + 255 * (1 - of_int a / 255) :: rat) \<and>
               out ! (4 * p + 3) = 255) \<and>
            (a = 255 \<longrightarrow>
               out ! (4 * p) = d ! (4 * p) \<and> out ! (4 * p + 1) = d ! (4 * p + 1) \<and>
               out ! (4 * p + 2) = d ! (4 * p + 2) \<and> out ! (4 * p + 3) = d ! (4 * p + 3))"
proof -
  let ?d = "data img" and ?out = "data (flattenAlpha img)"
  let ?a = "uint (?d ! (4 * p + 3))"
  have out: "?out ! (4 * p + c) = flatten_pixel (4 * p) ?d ! (4 * p + c)" if "c < 4" for c
  proof -
    have q: "(4 * p + c) div 4 = p" using that by simp
    have "4 * p + c < length ?d" using assms that by simp
    from flattenAlpha_nth [OF this] show ?thesis by (simp only: q)
  qed
  have out0: "?out ! (4 * p) = flatten_pixel (4 * p) ?d ! (4 * p)"
    using out [of 0] by simp
  have out1: "?out ! (4 * p + 1) = flatten_pixel (4 * p) ?d ! (4 * p + 1)"
    by (rule out) simp
  have out2: "?out ! (4 * p + 2) = flatten_pixel (4 * p) ?d ! (4 * p + 2)"
    by (rule out) simp
  have out3: "?out ! (4 * p + 3) = flatten_pixel (4 * p) ?d ! (4 * p + 3)"
    by (rule out) simp
  have len: "length ?out = length ?d" by (rule length_flattenAlpha)
  have dims: "width (flattenAlpha img) = width img" "height (flattenAlpha img) = height img"
    by (simp_all add: flattenAlpha_def)
  have ch: "uint (flatten_pixel (4 * p) ?d ! (4 * p + c)) =
     round (of_int (uint (?d ! (4 * p + c))) * (of_int ?a / 255) + 255 * (1 - of_int ?a / 255) :: rat)"
    if "?a < 255" "c < 3" for c
    by (rule flatten_pixel_channel [OF assms that])
  have R: "uint (?out ! (4 * p)) =
      round (of_int (uint (?d ! (4 * p))) * (of_int ?a / 255) + 255 * (1 - of_int ?a / 255) :: rat)"
    if "?a < 255"
    using ch [OF that, of 0] unfolding out0 by simp
  have G: "uint (?out ! (4 * p + 1)) =
      round (of_int (uint (?d ! (4 * p + 1))) * (of_int ?a / 255) + 255 * (1 - of_int ?a / 255) :: rat)"
    if "?a < 255"
    unfolding out1 by (rule ch [OF that]) simp
  have B: "uint (?out ! (4 * p + 2)) =
      round (of_int (uint (?d ! (4 * p + 2))) * (of_int ?a / 255) + 255 * (1 - of_int ?a / 255) :: rat)"
    if "?a < 255"
    unfolding out2 by (rule ch [OF that]) simp
  have A: "?out ! (4 * p + 3) = 255" if "?a < 255"
    unfolding out3 by (rule flatten_pixel_alpha [OF assms that])
  have O: "?out ! (4 * p) = ?d ! (4 * p) \<and> ?out ! (4 * p + 1) = ?d ! (4 * p + 1) \<and>
           ?out ! (4 * p + 2) = ?d ! (4 * p + 2) \<and> ?out ! (4 * p + 3) = ?d ! (4 * p + 3)"
    if "?a = 255"
  proof -
    have "uint (255 :: byte) = 255" by simp
    with that have "?d ! (4 * p + 3) = 255" by (simp only: word_uint_eq_iff)
    from flatten_pixel_opaque [OF assms this] show ?thesis
      unfolding out0 out1 out2 out3 by simp
  qed
  show ?thesis
    unfolding Let_def using len dims R G B A O by blast
qed




theorem flattenAlpha_composites_on_white_witness:
  "4 * 0 + 3 < length (data \<lparr>data = [10, 20, 30, 100], width = 1, height = 1\<rparr>) \<and>
   data (flattenAlpha \<lparr>data = [10, 20, 30, 100], width = 1, height = 1\<rparr>) = [159, 163, 167, 255] \<and>
   round (10 * (100 / 255) + 255 * (1 - 100 / 255) :: rat) = 159"
  using flattenAlpha_composites_on_white [of 0 "\<lparr>data = [10, 20, 30, 100], width = 1, height = 1\<rparr>"]
  by code_simp

lemma flatten_pixel_idem: "flatten_pixel i (flatten_pixel i d) = flatten_pixel i d"
proof (cases "i + 3 < length d")
  case False
  then show ?thesis by (simp add: flatten_pixel_out)
next
  case True
  show ?thesis
  proof (cases "uint (d ! (i + 3)) < 255")
    case False
    with True have "flatten_pixel i d = d" by (simp add: flatten_pixel_in)
    then show ?thesis by simp
  next
    case less: True
    have "i + 3 < length (flatten_pixel i d)" using True by simp
    moreover have "flatten_pixel i d ! (i + 3) = 255"
      by (rule flatten_pixel_alpha [OF True less])
    ultimately show ?thesis by (rule flatten_pixel_opaque)
  qed
qed

lemma flattenAlpha_fixed:
  "data (flattenAlpha img) = data img \<Longrightarrow> flattenAlpha img = img"
  by (simp add: flattenAlpha_def)

lemma flattenAlpha_opaque_data:
  assumes "\<forall>p. 4 * p + 3 < length (data img) \<longrightarrow> data img ! (4 * p + 3) = 255"
  shows "data (flattenAlpha img) = data img"
proof (rule nth_equalityI)
  show "length (data (flattenAlpha img)) = length (data img)" by (rule length_flattenAlpha)
next
  fix j assume "j < length (data (flattenAlpha img))"
  then have j: "j < length (data img)" by (simp add: length_flattenAlpha)
  have "flatten_pixel (4 * (j div 4)) (data img) = data img"
  proof (cases "4 * (j div 4) + 3 < length (data img)")
    case True
    with assms have "data img ! (4 * (j div 4) + 3) = 255" by blast
    with True show ?thesis by (rule flatten_pixel_opaque)
  next
    case False
    then show ?thesis by (rule flatten_pixel_out)
  qed
  with flattenAlpha_nth [OF j] show "data (flattenAlpha img) ! j = data img ! j" by simp
qed

lemma flattenAlpha_twice_data:
  "data (flattenAlpha (flattenAlpha img)) = data (flattenAlpha img)"
proof -
  have idem: "\<And>i d. flatten_pixel (4 * i) (flatten_pixel (4 * i) d) = flatten_pixel (4 * i) d"
    by (rule flatten_pixel_idem)
  from pixelwise_fold_idem [of flatten_pixel, OF pixelwise_flatten_pixel idem, of "data img"]
  show ?thesis
    by (simp add: flattenAlpha_def pixelwise_fold_length_any [OF pixelwise_flatten_pixel])
qed

text \<open>
  Claim C7. On a buffer whose pixels all have alpha 255, \<open>flattenAlpha\<close> changes nothing;
  and for every buffer, flattening twice gives the same image as flattening once.
\<close>

theorem flattenAlpha_idempotent:
  "((\<forall>p. 4 * p + 3 < length (data img) \<longrightarrow> data img ! (4 * p + 3) = 255) \<longrightarrow>
      flattenAlpha img = img) \<and>
   flattenAlpha (flattenAlpha img) = flattenAlpha img"
proof
  show "(\<forall>p. 4 * p + 3 < length (data img) \<longrightarrow> data img ! (4 * p + 3) = 255) \<longrightarrow>
      flattenAlpha img = img"
    using flattenAlpha_opaque_data [of img] flattenAlpha_fixed [of img] by blast
  show "flattenAlpha (flattenAlpha img) = flattenAlpha img"
    by (rule flattenAlpha_fixed) (rule flattenAlpha_twice_data)
qed

theorem flattenAlpha_idempotent_witness:
  "flattenAlpha \<lparr>data = [10, 20, 30, 255], width = 1, height = 1\<rparr> =
     \<lparr>data = [10, 20, 30, 255], width = 1, height = 1\<rparr> \<and>
   flattenAlpha (flattenAlpha \<lparr>data = [10, 20, 30, 100], width = 1, height = 1\<rparr>) =
     flattenAlpha \<lparr>data = [10, 20, 30, 100], width = 1, height = 1\<rparr>"
proof -
  have h: "\<forall>p. 4 * p + 3 < length (data \<lparr>data = [10, 20, 30, 255 :: byte], width = 1, height = 1\<rparr>) \<longrightarrow>
        data \<lparr>data = [10, 20, 30, 255], width = 1, height = 1\<rparr> ! (4 * p + 3) = (255 :: byte)"
    by simp
  from flattenAlpha_idempotent [of "\<lparr>data = [10, 20, 30, 255], width = 1, height = 1\<rparr>"] h
  have "flattenAlpha \<lparr>data = [10, 20, 30, 255], width = 1, height = 1\<rparr> =
     \<lparr>data = [10, 20, 30, 255], width = 1, height = 1\<rparr>" by blast
  moreover from flattenAlpha_idempotent [of "\<lparr>data = [10, 20, 30, 100], width = 1, height = 1\<rparr>"]
  have "flattenAlpha (flattenAlpha \<lparr>data = [10, 20, 30, 100], width = 1, height = 1\<rparr>) =
     flattenAlpha \<lparr>data = [10, 20, 30, 100], width = 1, height = 1\<rparr>" by blast
  ultimately show ?thesis by (rule conjI)
qed

subsection \<open>Nearest-colour quantization\<close>

lemma for_each_pure:
  assumes "\<And>i s. \<exists>s'. body i s = Inr s'"
  shows "for_each xs body s = Inr (fold (\<lambda>i s. projr (body i s)) xs s)"
proof (induction xs arbitrary: s)
  case Nil
  show ?case by simp
next
  case (Cons i xs)
  from assms [of i s] obtain s' where "body i s = Inr s'" by blast
  with Cons show ?case by simp
qed

lemma nearest_loop_member:
  "\<exists>c. nearest_loop r g b cs m (Some c0) = Some c \<and> (c = c0 \<or> c \<in> set cs)"
proof (induction cs arbitrary: m c0)
  case Nil
  show ?case by simp
next
  case (Cons c cs)
  from Cons [of "Finite (distance_to r g b c)" c] Cons [of m c0]
  show ?case by (auto simp: Let_def)
qed

lemma findNearest_member:
  assumes "palette \<noteq> []"
  shows "\<exists>c. findNearestPaletteColor r g b palette = Some c \<and> c \<in> set palette"
proof -
  from assms obtain c cs where p: "palette = c # cs" by (cases palette) auto
  from nearest_loop_member [of r g b palette Infinity c]
  show ?thesis by (auto simp: p findNearestPaletteColor_def)
qed

lemma sq_dist_zero: "sq_dist r g b c \<le> 0 \<Longrightarrow> c = (r, g, b)"
proof -
  obtain c0 c1 c2 where c: "c = (c0, c1, c2)" by (cases c) auto
  assume "sq_dist r g b c \<le> 0"
  then have s: "(r - c0)\<^sup>2 + (g - c1)\<^sup>2 + (b - c2)\<^sup>2 \<le> 0" by (simp add: sq_dist_def c)
  have "(r - c0)\<^sup>2 \<ge> 0" "(g - c1)\<^sup>2 \<ge> 0" "(b - c2)\<^sup>2 \<ge> 0" by simp_all
  with s have "(r - c0)\<^sup>2 = 0" "(g - c1)\<^sup>2 = 0" "(b - c2)\<^sup>2 = 0" by linarith+
  then show ?thesis by (simp add: c)
qed

lemma findNearest_palette_entry:
  assumes "(r, g, b) \<in> set palette"
  shows "findNearestPaletteColor (num r) (num g) (num b) palette = Some (r, g, b)"
proof -
  from assms have ne: "palette \<noteq> []" by auto
  from findNearest_first_minimum [OF ne, of r g b] obtain i where
    i: "findNearestPaletteColor (num r) (num g) (num b) palette = Some (palette ! i)"
    and fm: "first_minimum r g b palette i" by blast
  from assms obtain j where j: "j < length palette" "palette ! j = (r, g, b)"
    by (auto simp: in_set_conv_nth)
  from fm j have "sq_dist r g b (palette ! i) \<le> sq_dist r g b (r, g, b)"
    by (auto simp: first_minimum_def)
  then have "sq_dist r g b (palette ! i) \<le> 0" by (simp add: sq_dist_def)
  from sq_dist_zero [OF this] i show ?thesis by simp
qed

lemma distance_to_nan:
  "r = None \<or> g = None \<or> b = None \<Longrightarrow> distance_to r g b c = None"
  by (cases c; cases r; cases g; cases b)
     (auto simp: distance_to_def add_def sub_def mul_def Math_pow2_def num_def)

lemma below_nan [simp]: "\<not> below None m"
  by (cases m) simp_all

lemma nearest_loop_nan:
  "r = None \<or> g = None \<or> b = None \<Longrightarrow> nearest_loop r g b cs m nc = nc"
  by (induction cs arbitrary: m nc) (simp_all add: distance_to_nan Let_def)



lemma quantize_pixel_Inr:
  assumes "palette \<noteq> []"
  shows "\<exists>d'. quantize_pixel palette i d = Inr d'"
proof -
  from findNearest_member [OF assms] obtain c where
    "findNearestPaletteColor (load d i) (load d (i + 1)) (load d (i + 2)) palette = Some c"
    by blast
  then show ?thesis by (cases c) (simp add: quantize_pixel_def)
qed

lemma quantize_pixel_stores:
  assumes "findNearestPaletteColor (load d i) (load d (i + 1)) (load d (i + 2)) palette = Some (r, g, b)"
  shows "projr (quantize_pixel palette i d) =
           store (store (store d i (num r)) (i + 1) (num g)) (i + 2) (num b)"
  using assms by (simp add: quantize_pixel_def)

lemma length_quantize_pixel:
  assumes "palette \<noteq> []"
  shows "length (projr (quantize_pixel palette i d)) = length d"
proof -
  from findNearest_member [OF assms] obtain c where
    "findNearestPaletteColor (load d i) (load d (i + 1)) (load d (i + 2)) palette = Some c"
    by blast
  then show ?thesis by (cases c) (simp add: quantize_pixel_stores)
qed

lemma quantize_pixel_frame:
  assumes "palette \<noteq> []" "j div 4 \<noteq> i"
  shows "projr (quantize_pixel palette (4 * i) d) ! j = d ! j"
proof -
  from findNearest_member [OF assms(1)] obtain c where
    "findNearestPaletteColor (load d (4 * i)) (load d (4 * i + 1)) (load d (4 * i + 2)) palette = Some c"
    by blast
  moreover from assms(2) have "j \<noteq> 4 * i" "j \<noteq> 4 * i + 1" "j \<noteq> 4 * i + 2" by auto
  ultimately show ?thesis by (cases c) (simp add: quantize_pixel_stores nth_store)
qed

lemma quantize_pixel_local:
  assumes "palette \<noteq> []" "length d' = length d"
    "\<forall>k<length d. k div 4 = i \<longrightarrow> d' ! k = d ! k" "j < length d" "j div 4 = i"
  shows "projr (quantize_pixel palette (4 * i) d') ! j = projr (quantize_pixel palette (4 * i) d) ! j"
proof -
  have l: "load d' (4 * i) = load d (4 * i)" "load d' (4 * i + 1) = load d (4 * i + 1)"
    "load d' (4 * i + 2) = load d (4 * i + 2)"
    using assms(2,3) by (simp_all add: load_def)
  from findNearest_member [OF assms(1)] obtain c where
    c: "findNearestPaletteColor (load d (4 * i)) (load d (4 * i + 1)) (load d (4 * i + 2)) palette = Some c"
    by blast
  obtain r g b where rgb: "c = (r, g, b)" by (cases c) auto
  have same: "d' ! j = d ! j" using assms(3,4,5) by simp
  have qd: "projr (quantize_pixel palette (4 * i) d) =
      store (store (store d (4 * i) (num r)) (4 * i + 1) (num g)) (4 * i + 2) (num b)"
    by (rule quantize_pixel_stores) (simp only: c rgb)
  have qd': "projr (quantize_pixel palette (4 * i) d') =
      store (store (store d' (4 * i) (num r)) (4 * i + 1) (num g)) (4 * i + 2) (num b)"
    by (rule quantize_pixel_stores) (simp only: l c rgb)
  show ?thesis unfolding qd qd' by (simp add: nth_store assms(2) same)
qed


lemma pixelwise_quantize_pixel:
  assumes "palette \<noteq> []"
  shows "pixelwise (\<lambda>i d. projr (quantize_pixel palette i d))"
proof -
  let ?Q = "\<lambda>i d. projr (quantize_pixel palette i d)"
  have "\<forall>i d. length (?Q i d) = length d"
    by (simp add: length_quantize_pixel [OF assms])
  moreover have "\<forall>i d j. j < length d \<longrightarrow> j div 4 \<noteq> i \<longrightarrow> ?Q (4 * i) d ! j = d ! j"
    by (simp add: quantize_pixel_frame [OF assms])
  moreover have "\<forall>i d d' j. length d' = length d \<longrightarrow>
        (\<forall>k<length d. k div 4 = i \<longrightarrow> d' ! k = d ! k) \<longrightarrow>
        j < length d \<longrightarrow> j div 4 = i \<longrightarrow> ?Q (4 * i) d' ! j = ?Q (4 * i) d ! j"
    by (intro allI impI) (rule quantize_pixel_local [OF assms])
  ultimately show ?thesis unfolding pixelwise_def by (intro conjI)
qed

lemma quantizeToNearestColor_fold:
  assumes "palette \<noteq> []"
  shows "quantizeToNearestColor img palette =
     Inr (img\<lparr>data := fold (\<lambda>i d. projr (quantize_pixel palette i d))
                          (pixel_offsets (length (data img))) (data img)\<rparr>)"
  unfolding quantizeToNearestColor_def
  by (simp add: for_each_pure [where body = "quantize_pixel palette", OF quantize_pixel_Inr [OF assms]])

lemma valid_palette_range:
  assumes "valid_palette palette" "(r, g, b) \<in> set palette"
  shows "0 \<le> r" "r \<le> 255" "0 \<le> g" "g \<le> 255" "0 \<le> b" "b \<le> 255"
  using assms by (auto simp: valid_palette_def list_all_iff)

lemma valid_palette_nonempty: "valid_palette palette \<Longrightarrow> palette \<noteq> []"
  by (simp add: valid_palette_def)



lemma quantize_pixel_full:
  assumes vp: "valid_palette palette" and i: "i + 3 < length d"
  shows "\<exists>r g b. (r, g, b) \<in> set palette \<and>
           findNearestPaletteColor (num (uint (d ! i))) (num (uint (d ! (i + 1))))
             (num (uint (d ! (i + 2)))) palette = Some (r, g, b) \<and>
           projr (quantize_pixel palette i d) =
             d[i := word_of_int r, i + 1 := word_of_int g, i + 2 := word_of_int b] \<and>
           uint (word_of_int r :: byte) = r \<and> uint (word_of_int g :: byte) = g \<and>
           uint (word_of_int b :: byte) = b"
proof -
  have ld: "load d i = num (uint (d ! i))" "load d (i + 1) = num (uint (d ! (i + 1)))"
    "load d (i + 2) = num (uint (d ! (i + 2)))"
    using i by simp_all
  from findNearest_member [OF valid_palette_nonempty [OF vp]] obtain c where
    c: "findNearestPaletteColor (load d i) (load d (i + 1)) (load d (i + 2)) palette = Some c"
    and cin: "c \<in> set palette" by blast
  obtain r g b where rgb: "c = (r, g, b)" by (cases c) auto
  note rng = valid_palette_range [OF vp cin [unfolded rgb]]
  have "projr (quantize_pixel palette i d) =
      store (store (store d i (num r)) (i + 1) (num g)) (i + 2) (num b)"
    by (rule quantize_pixel_stores) (simp only: c rgb)
  also have "\<dots> = d[i := word_of_int r, i + 1 := word_of_int g, i + 2 := word_of_int b]"
    using i rng by (simp add: store_def ToUint8Clamp_num)
  finally have q: "projr (quantize_pixel palette i d) =
      d[i := word_of_int r, i + 1 := word_of_int g, i + 2 := word_of_int b]" .
  have u: "uint (word_of_int r :: byte) = r" "uint (word_of_int g :: byte) = g"
    "uint (word_of_int b :: byte) = b"
    using rng by (simp_all add: uint_word_of_int take_bit_eq_mod)
  from cin c q u show ?thesis unfolding rgb ld by blast
qed

lemma quantize_nth:
  assumes "palette \<noteq> []" "quantizeToNearestColor img palette = Inr out" "j < length (data img)"
  shows "data out ! j = projr (quantize_pixel palette (4 * (j div 4)) (data img)) ! j"
proof -
  from assms(2) have "data out = fold (\<lambda>i d. projr (quantize_pixel palette i d))
                          (pixel_offsets (length (data img))) (data img)"
    by (auto simp: quantizeToNearestColor_fold [OF assms(1)])
  then show ?thesis
    by (simp only: pixelwise_fold_nth [OF pixelwise_quantize_pixel [OF assms(1)] assms(3)])
qed

text \<open>
  Claim C5. For every buffer and every non-empty palette of channels in \<open>[0, 255]\<close>,
  \<open>quantizeToNearestColor\<close> returns an image of the same size in which the R, G and B bytes
  of each pixel are the nearest palette colour of that pixel's original R, G and B, hence an
  entry of the palette, and the alpha byte of each pixel is the original one.
\<close>

theorem quantizeToNearestColor_pixels:
  assumes "valid_palette palette" and "4 * p + 3 < length (data img)"
  shows "\<exists>out. quantizeToNearestColor img palette = Inr out \<and>
           length (data out) = length (data img) \<and>
           width out = width img \<and> height out = height img \<and>
           findNearestPaletteColor (num (uint (data img ! (4 * p))))
               (num (uint (data img ! (4 * p + 1)))) (num (uint (data img ! (4 * p + 2)))) palette =
             Some (uint (data out ! (4 * p)), uint (data out ! (4 * p + 1)),
                   uint (data out ! (4 * p + 2))) \<and>
           (uint (data out ! (4 * p)), uint (data out ! (4 * p + 1)),
            uint (data out ! (4 * p + 2))) \<in> set palette \<and>
           data out ! (4 * p + 3) = data img ! (4 * p + 3)"
proof -
  let ?d = "data img"
  let ?Q = "\<lambda>i d. projr (quantize_pixel palette i d)"
  let ?out = "img\<lparr>data := fold ?Q (pixel_offsets (length ?d)) ?d\<rparr>"
  note ne = valid_palette_nonempty [OF assms(1)]
  have res: "quantizeToNearestColor img palette = Inr ?out"
    by (rule quantizeToNearestColor_fold [OF ne])
  have len: "length (data ?out) = length ?d"
    by (simp add: pixelwise_fold_length_any [OF pixelwise_quantize_pixel [OF ne]])
  have nth_out: "data ?out ! (4 * p + c) = ?Q (4 * p) ?d ! (4 * p + c)" if "c < 4" for c
  proof -
    have q: "(4 * p + c) div 4 = p" using that by simp
    have "4 * p + c < length ?d" using assms(2) that by simp
    from quantize_nth [OF ne res this] show ?thesis by (simp only: q)
  qed
  from quantize_pixel_full [OF assms] obtain r g b where
    cin: "(r, g, b) \<in> set palette"
    and near: "findNearestPaletteColor (num (uint (?d ! (4 * p)))) (num (uint (?d ! (4 * p + 1))))
             (num (uint (?d ! (4 * p + 2)))) palette = Some (r, g, b)"
    and q: "?Q (4 * p) ?d =
             ?d[4 * p := word_of_int r, 4 * p + 1 := word_of_int g, 4 * p + 2 := word_of_int b]"
    and u: "uint (word_of_int r :: byte) = r" "uint (word_of_int g :: byte) = g"
           "uint (word_of_int b :: byte) = b"
    by blast
  have o0: "data ?out ! (4 * p) = word_of_int r"
    using nth_out [of 0] assms(2) by (simp add: q)
  have o1: "data ?out ! (4 * p + 1) = word_of_int g"
    using nth_out [of 1] assms(2) by (simp add: q)
  have o2: "data ?out ! (4 * p + 2) = word_of_int b"
    using nth_out [of 2] assms(2) by (simp add: q)
  have o3: "data ?out ! (4 * p + 3) = ?d ! (4 * p + 3)"
    using nth_out [of 3] assms(2) by (simp add: q)
  have dims: "width ?out = width img" "height ?out = height img" by simp_all
  show ?thesis
    apply (rule exI [of _ ?out])
    apply (simp only: o0 o1 o2 o3 u)
    using res len dims near cin by blast
qed

theorem quantizeToNearestColor_pixels_witness:
  "valid_palette [(0, 0, 0), (255, 255, 255), (255, 0, 0)] \<and>
   4 * 0 + 3 < length (data \<lparr>data = [200, 30, 40, 77, 10, 20, 30, 255], width = 2, height = 1\<rparr>) \<and>
   quantizeToNearestColor \<lparr>data = [200, 30, 40, 77, 10, 20, 30, 255], width = 2, height = 1\<rparr>
       [(0, 0, 0), (255, 255, 255), (255, 0, 0)] =
     Inr \<lparr>data = [255, 0, 0, 77, 0, 0, 0, 255], width = 2, height = 1\<rparr> \<and>
   findNearestPaletteColor (num 200) (num 30) (num 40) [(0, 0, 0), (255, 255, 255), (255, 0, 0)] =
     Some (255, 0, 0)"
proof -
  have vp: "valid_palette [(0, 0, 0), (255, 255, 255), (255, 0, 0)]"
    by (simp add: valid_palette_def)
  have h: "4 * 0 + 3 < length (data \<lparr>data = [200, 30, 40, 77, 10, 20, 30, 255 :: byte], width = 2, height = 1\<rparr>)"
    by simp
  have q: "quantizeToNearestColor \<lparr>data = [200, 30, 40, 77, 10, 20, 30, 255], width = 2, height = 1\<rparr>
       [(0, 0, 0), (255, 255, 255), (255, 0, 0)] =
     Inr \<lparr>data = [255, 0, 0, 77, 0, 0, 0, 255], width = 2, height = 1\<rparr>"
    by code_simp
  have n: "findNearestPaletteColor (num 200) (num 30) (num 40)
       [(0, 0, 0), (255, 255, 255), (255, 0, 0)] = Some (255, 0, 0)"
    by code_simp
  from quantizeToNearestColor_pixels [OF vp h] vp h q n
  show ?thesis by blast
qed

lemma paint_idem:
  "store (store (store (store (store (store d i a) (i + 1) b) (i + 2) c) i a) (i + 1) b) (i + 2) c =
   store (store (store d i a) (i + 1) b) (i + 2) c"
  by (rule nth_equalityI) (simp_all add: nth_store)

lemma findNearest_nan:
  "r = None \<or> g = None \<or> b = None \<Longrightarrow>
   findNearestPaletteColor r g b palette = (case palette of [] \<Rightarrow> None | c # _ \<Rightarrow> Some c)"
  by (simp add: findNearestPaletteColor_def nearest_loop_nan)

lemma quantize_pixel_idem:
  assumes vp: "valid_palette palette"
  shows "projr (quantize_pixel palette i (projr (quantize_pixel palette i d))) =
         projr (quantize_pixel palette i d)"
proof -
  from findNearest_member [OF valid_palette_nonempty [OF vp]] obtain c where
    c: "findNearestPaletteColor (load d i) (load d (i + 1)) (load d (i + 2)) palette = Some c"
    and cin: "c \<in> set palette" by blast
  obtain r g b where rgb: "c = (r, g, b)" by (cases c) auto
  note rng = valid_palette_range [OF vp cin [unfolded rgb]]
  let ?d1 = "store (store (store d i (num r)) (i + 1) (num g)) (i + 2) (num b)"
  have q: "projr (quantize_pixel palette i d) = ?d1"
    by (rule quantize_pixel_stores) (simp only: c rgb)
  have c1: "findNearestPaletteColor (load ?d1 i) (load ?d1 (i + 1)) (load ?d1 (i + 2)) palette =
              Some (r, g, b)"
  proof (cases "i + 2 < length d")
    case True
    have "load ?d1 i = num r" "load ?d1 (i + 1) = num g" "load ?d1 (i + 2) = num b"
      using True rng by (simp_all add: load_def nth_store uint_ToUint8Clamp_num)
    then show ?thesis
      using cin by (simp only: findNearest_palette_entry rgb)
  next
    case False
    then have n: "load d (i + 2) = None" "load ?d1 (i + 2) = None" by simp_all
    have "findNearestPaletteColor (load ?d1 i) (load ?d1 (i + 1)) (load ?d1 (i + 2)) palette =
        (case palette of [] \<Rightarrow> None | c # _ \<Rightarrow> Some c)"
      by (rule findNearest_nan) (intro disjI2, rule n(2))
    also have "\<dots> = findNearestPaletteColor (load d i) (load d (i + 1)) (load d (i + 2)) palette"
      by (rule findNearest_nan [symmetric]) (intro disjI2, rule n(1))
    finally show ?thesis by (simp only: c rgb)
  qed
  have "projr (quantize_pixel palette i ?d1) =
         store (store (store ?d1 i (num r)) (i + 1) (num g)) (i + 2) (num b)"
    by (rule quantize_pixel_stores) (rule c1)
  then show ?thesis unfolding q by (simp only: paint_idem)
qed

text \<open>
  Claim C10. For every buffer and every non-empty palette of channels in \<open>[0, 255]\<close>,
  \<open>quantizeToNearestColor\<close> returns an image that a second call returns unchanged.
\<close>

theorem quantizeToNearestColor_idempotent:
  assumes "valid_palette palette"
  shows "\<exists>out. quantizeToNearestColor img palette = Inr out \<and>
               quantizeToNearestColor out palette = Inr out"
proof -
  let ?Q = "\<lambda>i d. projr (quantize_pixel palette i d)"
  let ?d = "data img"
  let ?out = "img\<lparr>data := fold ?Q (pixel_offsets (length ?d)) ?d\<rparr>"
  note ne = valid_palette_nonempty [OF assms]
  note pw = pixelwise_quantize_pixel [OF ne]
  have idem: "\<And>i d. ?Q (4 * i) (?Q (4 * i) d) = ?Q (4 * i) d"
    by (rule quantize_pixel_idem [OF assms])
  have res: "quantizeToNearestColor img palette = Inr ?out"
    by (rule quantizeToNearestColor_fold [OF ne])
  have len: "length (data ?out) = length ?d"
    by (simp add: pixelwise_fold_length_any [OF pw])
  have "fold ?Q (pixel_offsets (length ?d)) (fold ?Q (pixel_offsets (length ?d)) ?d) =
          fold ?Q (pixel_offsets (length ?d)) ?d"
    using pw idem by (rule pixelwise_fold_idem)
  then have "quantizeToNearestColor ?out palette = Inr ?out"
    by (simp add: quantizeToNearestColor_fold [OF ne] pixelwise_fold_length_any [OF pw])
  with res show ?thesis by blast
qed

theorem quantizeToNearestColor_idempotent_witness:
  "valid_palette [(0, 0, 0), (255, 255, 255), (255, 0, 0)] \<and>
   quantizeToNearestColor \<lparr>data = [200, 30, 40, 77, 10, 20, 30, 255], width = 2, height = 1\<rparr>
       [(0, 0, 0), (255, 255, 255), (255, 0, 0)] =
     Inr \<lparr>data = [255, 0, 0, 77, 0, 0, 0, 255], width = 2, height = 1\<rparr> \<and>
   quantizeToNearestColor \<lparr>data = [255, 0, 0, 77, 0, 0, 0, 255], width = 2, height = 1\<rparr>
       [(0, 0, 0), (255, 255, 255), (255, 0, 0)] =
     Inr \<lparr>data = [255, 0, 0, 77, 0, 0, 0, 255], width = 2, height = 1\<rparr>"
proof -
  have vp: "valid_palette [(0, 0, 0), (255, 255, 255), (255, 0, 0)]"
    by (simp add: valid_palette_def)
  have q: "quantizeToNearestColor \<lparr>data = [200, 30, 40, 77, 10, 20, 30, 255], width = 2, height = 1\<rparr>
       [(0, 0, 0), (255, 255, 255), (255, 0, 0)] =
     Inr \<lparr>data = [255, 0, 0, 77, 0, 0, 0, 255], width = 2, height = 1\<rparr>"
    by code_simp
  from quantizeToNearestColor_idempotent [OF vp,
      of "\<lparr>data = [200, 30, 40, 77, 10, 20, 30, 255], width = 2, height = 1\<rparr>"] vp q
  show ?thesis by auto
qed

subsection \<open>Floyd-Steinberg dithering\<close>

lemma pixel_indices:
  fixes x y w :: nat
  shows "(y * w + x) * 4 = 4 * (y * w + x)"
    and "(y * w + x + 1) * 4 = 4 * (y * w + x + 1)"
    and "0 < x \<Longrightarrow> ((y + 1) * w + x - 1) * 4 = 4 * (y * w + x + w - 1)"
    and "((y + 1) * w + x) * 4 = 4 * (y * w + x + w)"
    and "((y + 1) * w + x + 1) * 4 = 4 * (y * w + x + w + 1)"
  by (simp_all add: algebra_simps)

lemma dither_pixel_step:
  assumes "findNearestPaletteColor (load d (4 * (y * w + x))) (load d (4 * (y * w + x) + 1))
             (load d (4 * (y * w + x) + 2)) palette = Some new"
  shows "dither_pixel w h palette y x d = Inr (dither_step w h y x new d)"
proof (cases new)
  case (fields newR newG newB)
  note near = assms [unfolded fields]
  show ?thesis
  proof (cases "0 < x")
    case True
    show ?thesis
      unfolding dither_pixel_def dither_step_def Let_def store3_def diffuse3_def fields
      by (simp only: pixel_indices(1,2,4,5) [where x = x and y = y and w = w]
            pixel_indices(3) [OF True, where y = y and w = w] near)
         simp
  next
    case False
    then have x: "x = 0" by simp
    show ?thesis
      unfolding dither_pixel_def dither_step_def Let_def store3_def diffuse3_def fields
      by (simp only: pixel_indices(1,2,4,5) [where x = x and y = y and w = w] near)
         (simp add: x)
  qed
qed

lemma length_diffuse [simp]: "length (diffuse d j err k) = length d"
  by (simp add: diffuse_def)

lemma nth_diffuse:
  "diffuse d j err k ! i =
     (if i = j \<and> j < length d then ToUint8Clamp (diffused (load d j) err k) else d ! i)"
  by (simp add: diffuse_def diffused_def nth_store)

lemma load_store_other: "i \<noteq> j \<Longrightarrow> load (store d j v) i = load d i"
  by (simp add: load_def nth_store)

lemma load_diffuse_other: "i \<noteq> j \<Longrightarrow> load (diffuse d j err k) i = load d i"
  by (simp add: load_def nth_diffuse)

lemma length_store3 [simp]: "length (store3 d q color) = length d"
  by (cases color) (simp add: store3_def)

lemma length_diffuse3 [simp]: "length (diffuse3 d q err k) = length d"
  by (cases err) (simp add: diffuse3_def)

lemma byte_position:
  fixes j q :: nat
  shows "j div 4 = q \<and> j mod 4 < 3 \<longleftrightarrow> j = 4 * q \<or> j = 4 * q + 1 \<or> j = 4 * q + 2"
  by presburger

lemma pixel_index_Suc [simp]:
  "Suc (4 * p) div 4 = p" "Suc (Suc (4 * p)) div 4 = p" "Suc (Suc (Suc (4 * p))) div 4 = p"
  "Suc (4 * p) mod 4 = 1" "Suc (Suc (4 * p)) mod 4 = 2" "Suc (Suc (Suc (4 * p))) mod 4 = 3"
  by presburger+

lemma nth_store3:
  "store3 d q color ! j =
     (if j < length d \<and> j div 4 = q \<and> j mod 4 < 3
      then ToUint8Clamp (num (channel color (j mod 4))) else d ! j)"
proof (cases color)
  case (fields r g b)
  consider "j = 4 * q" | "j = 4 * q + 1" | "j = 4 * q + 2" | "\<not> (j div 4 = q \<and> j mod 4 < 3)"
    using byte_position [of j q] by blast
  then show ?thesis
  proof cases
    case 4
    then have "j \<noteq> 4 * q" "j \<noteq> 4 * q + 1" "j \<noteq> 4 * q + 2"
      using byte_position [of j q] by blast+
    with 4 show ?thesis by (auto simp add: fields store3_def nth_store)
  qed (simp_all add: fields store3_def nth_store channel_def)
qed

lemma nth_diffuse3:
  "diffuse3 d q err k ! j =
     (if j < length d \<and> j div 4 = q \<and> j mod 4 < 3
      then ToUint8Clamp (diffused (load d j) (channel err (j mod 4)) k) else d ! j)"
proof (cases err)
  case (fields errR errG errB)
  consider "j = 4 * q" | "j = 4 * q + 1" | "j = 4 * q + 2" | "\<not> (j div 4 = q \<and> j mod 4 < 3)"
    using byte_position [of j q] by blast
  then show ?thesis
  proof cases
    case 4
    then have "j \<noteq> 4 * q" "j \<noteq> 4 * q + 1" "j \<noteq> 4 * q + 2"
      using byte_position [of j q] by blast+
    with 4 show ?thesis by (auto simp add: fields diffuse3_def nth_diffuse)
  qed (simp_all add: fields diffuse3_def nth_diffuse load_diffuse_other channel_def)
qed

lemma channel_simps [simp]:
  "channel (r, g, b) 0 = r" "channel (r, g, b) (Suc 0) = g" "channel (r, g, b) 2 = b"
  by (simp_all add: channel_def)

lemma nth_dither_step_alpha:
  assumes "j mod 4 = 3"
  shows "dither_step w h y x new d ! j = d ! j"
  using assms by (simp add: dither_step_def Let_def nth_diffuse3 nth_store3)

lemma nth_dither_step_before:
  assumes "x < w" "j div 4 < y * w + x"
  shows "dither_step w h y x new d ! j = d ! j"
  using assms by (auto simp add: dither_step_def Let_def nth_diffuse3 nth_store3)

lemma nth_dither_step_here:
  assumes "x < w" "j < length d" "j div 4 = y * w + x" "j mod 4 < 3"
  shows "dither_step w h y x new d ! j = ToUint8Clamp (num (channel new (j mod 4)))"
  using assms by (auto simp add: dither_step_def Let_def nth_diffuse3 nth_store3)

lemma length_dither_step [simp]: "length (dither_step w h y x new d) = length d"
  by (simp add: dither_step_def Let_def)

lemma for_each_upt_invariant:
  assumes step: "\<And>i s. i < n \<Longrightarrow> P i s \<Longrightarrow> \<exists>s'. body i s = Inr s' \<and> P (Suc i) s'"
    and init: "P 0 s"
  shows "\<exists>s'. for_each [0..<n] body s = Inr s' \<and> P n s'"
proof -
  have "\<exists>s'. for_each [m..<n] body s = Inr s' \<and> P n s'" if "m \<le> n" "P m s" for m s
    using that
  proof (induction "n - m" arbitrary: m s)
    case 0
    then show ?case by simp
  next
    case (Suc k)
    then have m: "m < n" by simp
    from step [OF m Suc.prems(2)] obtain s' where s': "body m s = Inr s'" "P (Suc m) s'"
      by blast
    from Suc.hyps(2) m have "k = n - Suc m" by simp
    from Suc.hyps(1) [OF this _ s'(2)] m
    obtain s'' where "for_each [Suc m..<n] body s' = Inr s''" "P n s''" by auto
    with m s' show ?case by (simp add: upt_conv_Cons)
  qed
  from this [of 0 s] init show ?thesis by simp
qed

lemma dither_rows_invariant:
  assumes step: "\<And>y x d'. y < h \<Longrightarrow> x < w \<Longrightarrow> I (y * w + x) d' \<Longrightarrow>
                  \<exists>d''. dither_pixel w h palette y x d' = Inr d'' \<and> I (y * w + x + 1) d''"
    and init: "I 0 d"
  shows "\<exists>d'. dither_rows w h palette d = Inr d' \<and> I (h * w) d'"
  unfolding dither_rows_def
proof (rule for_each_upt_invariant [where P = "\<lambda>y. I (y * w)", simplified])
  show "I 0 d" by (rule init)
next
  fix y d' assume y: "y < h" and inv: "I (y * w) d'"
  have "\<exists>d''. for_each [0..<w] (dither_pixel w h palette y) d' = Inr d'' \<and> I (y * w + w) d''"
  proof (rule for_each_upt_invariant [where P = "\<lambda>x. I (y * w + x)"])
    show "I (y * w + 0) d'" using inv by simp
  next
    fix x s assume "x < w" "I (y * w + x) s"
    from step [OF y this] show "\<exists>s'. dither_pixel w h palette y x s = Inr s' \<and> I (y * w + Suc x) s'"
      by simp
  qed
  then show "\<exists>s'. for_each [0..<w] (dither_pixel w h palette y) d' = Inr s' \<and> I (w + y * w) s'"
    by (simp add: add.commute)
qed

lemma pixel_in_grid:
  fixes x y w h :: nat
  assumes "x < w" "y < h"
  shows "y * w + x < w * h"
proof -
  have "y * w + x < Suc y * w" using assms(1) by simp
  also have "\<dots> \<le> h * w" using assms(2) by (intro mult_le_mono1) simp
  finally show ?thesis by (simp add: mult.commute)
qed

lemma new_ImageData_wf:
  assumes "0 < w" "0 < h" "length d = 4 * w * h"
  shows "new_ImageData d w h = Inr \<lparr>data = d, width = w, height = h\<rparr>"
  using assms by (simp add: new_ImageData_def)

lemma dither_pixel_Inr:
  assumes "palette \<noteq> []"
  shows "\<exists>new. new \<in> set palette \<and>
           dither_pixel w h palette y x d = Inr (dither_step w h y x new d)"
proof -
  from findNearest_member [OF assms] obtain new where
    "findNearestPaletteColor (load d (4 * (y * w + x))) (load d (4 * (y * w + x) + 1))
       (load d (4 * (y * w + x) + 2)) palette = Some new" "new \<in> set palette"
    by blast
  with dither_pixel_step show ?thesis by blast
qed

lemma floydSteinbergDither_result:
  assumes "wf_image img" "dither_rows (width img) (height img) palette (data img) = Inr d'"
    "length d' = length (data img)"
  shows "floydSteinbergDither img palette = Inr \<lparr>data = d', width = width img, height = height img\<rparr>"
  using assms by (simp add: floydSteinbergDither_def wf_image_def new_ImageData_wf)

lemma dither_rows_alpha:
  assumes "palette \<noteq> []"
  shows "\<exists>d'. dither_rows w h palette d = Inr d' \<and> length d' = length d \<and>
           (\<forall>j. j mod 4 = 3 \<longrightarrow> d' ! j = d ! j)"
proof -
  let ?I = "\<lambda>k d'. length d' = length d \<and> (\<forall>j. j mod 4 = 3 \<longrightarrow> d' ! j = d ! j)"
  have "\<exists>d'. dither_rows w h palette d = Inr d' \<and> ?I (h * w) d'"
  proof (rule dither_rows_invariant [where I = ?I])
    show "?I 0 d" by simp
  next
    fix y x d' assume inv: "?I (y * w + x) d'"
    from dither_pixel_Inr [OF assms, of w h y x d'] obtain new where
      "dither_pixel w h palette y x d' = Inr (dither_step w h y x new d')" by blast
    moreover have "?I (y * w + x + 1) (dither_step w h y x new d')"
      using inv by (simp add: nth_dither_step_alpha)
    ultimately show "\<exists>d''. dither_pixel w h palette y x d' = Inr d'' \<and> ?I (y * w + x + 1) d''"
      by blast
  qed
  then show ?thesis by blast
qed

text \<open>
  Claim C1, as amended. For every image and every non-empty palette, \<open>floydSteinbergDither\<close>
  returns an image of the same dimensions in which the alpha byte of every pixel is the alpha
  byte of the same pixel of the input.
\<close>

theorem floydSteinbergDither_keeps_alpha:
  assumes "wf_image img" "palette \<noteq> []"
  shows "\<exists>out. floydSteinbergDither img palette = Inr out \<and>
           width out = width img \<and> height out = height img \<and>
           length (data out) = length (data img) \<and>
           (\<forall>q < width img * height img. data out ! (4 * q + 3) = data img ! (4 * q + 3))"
proof -
  from dither_rows_alpha [OF assms(2), of "width img" "height img" "data img"] obtain d' where
    d': "dither_rows (width img) (height img) palette (data img) = Inr d'"
    and len: "length d' = length (data img)"
    and alpha: "\<forall>j. j mod 4 = 3 \<longrightarrow> d' ! j = data img ! j" by blast
  have "(4 * q + 3) mod 4 = 3" for q :: nat by presburger
  with alpha have "\<forall>q. d' ! (4 * q + 3) = data img ! (4 * q + 3)" by blast
  with floydSteinbergDither_result [OF assms(1) d' len] len show ?thesis by simp
qed

theorem floydSteinbergDither_keeps_alpha_witness:
  "wf_image \<lparr>data = [10, 20, 30, 100], width = 1, height = 1\<rparr> \<and>
   [(0, 0, 0)] \<noteq> ([] :: rgb list) \<and>
   floydSteinbergDither \<lparr>data = [10, 20, 30, 100], width = 1, height = 1\<rparr> [(0, 0, 0)] =
     Inr \<lparr>data = [0, 0, 0, 100], width = 1, height = 1\<rparr>"
proof -
  have wf: "wf_image \<lparr>data = [10, 20, 30, 100], width = 1, height = 1\<rparr>"
    by (simp add: wf_image_def)
  have ne: "[(0, 0, 0)] \<noteq> ([] :: rgb list)" by simp
  have r: "floydSteinbergDither \<lparr>data = [10, 20, 30, 100], width = 1, height = 1\<rparr> [(0, 0, 0)] =
     Inr \<lparr>data = [0, 0, 0, 100], width = 1, height = 1\<rparr>"
    by code_simp
  from floydSteinbergDither_keeps_alpha [OF wf ne] wf ne r show ?thesis by blast
qed

theorem floydSteinbergDither_alpha_counterexample:
  "wf_image \<lparr>data = [10, 20, 30, 100], width = 1, height = 1\<rparr> \<and>
   floydSteinbergDither \<lparr>data = [10, 20, 30, 100], width = 1, height = 1\<rparr> [(0, 0, 0)] =
     Inr \<lparr>data = [0, 0, 0, 100], width = 1, height = 1\<rparr> \<and>
   [0, 0, 0, 100 :: byte] ! (4 * 0 + 3) \<noteq> 255"
proof -
  have "wf_image \<lparr>data = [10, 20, 30, 100], width = 1, height = 1\<rparr>"
    by (simp add: wf_image_def)
  moreover have "floydSteinbergDither \<lparr>data = [10, 20, 30, 100], width = 1, height = 1\<rparr> [(0, 0, 0)] =
     Inr \<lparr>data = [0, 0, 0, 100], width = 1, height = 1\<rparr>"
    by code_simp
  moreover have "[0, 0, 0, 100 :: byte] ! (4 * 0 + 3) \<noteq> 255" by simp
  ultimately show ?thesis by blast
qed

lemma byte_index_div_mod:
  fixes p c :: nat
  assumes "c < 4"
  shows "(4 * p + c) div 4 = p" "(4 * p + c) mod 4 = c"
  using assms by simp_all

lemma dither_rows_palette:
  assumes vp: "valid_palette palette" and len: "length d = 4 * w * h"
  shows "\<exists>d'. dither_rows w h palette d = Inr d' \<and> length d' = length d \<and>
           (\<forall>q < w * h. rgb_at d' q \<in> set palette)"
proof -
  let ?I = "\<lambda>k d'. length d' = length d \<and> (\<forall>q < k. rgb_at d' q \<in> set palette)"
  have "\<exists>d'. dither_rows w h palette d = Inr d' \<and> ?I (h * w) d'"
  proof (rule dither_rows_invariant [where I = ?I])
    show "?I 0 d" by simp
  next
    fix y x d' assume y: "y < h" and x: "x < w" and inv: "?I (y * w + x) d'"
    let ?p = "y * w + x"
    from dither_pixel_Inr [OF valid_palette_nonempty [OF vp], of w h y x d'] obtain new where
      new: "new \<in> set palette"
      and res: "dither_pixel w h palette y x d' = Inr (dither_step w h y x new d')" by blast
    obtain r g b where rgb: "new = (r, g, b)" by (cases new) auto
    note rng = valid_palette_range [OF vp new [unfolded rgb]]
    let ?d'' = "dither_step w h y x new d'"
    have inside: "4 * ?p + 3 < length d'"
      using pixel_in_grid [OF x y] inv len by simp
    have before: "rgb_at ?d'' q = rgb_at d' q" if "q < ?p" for q
      using that x by (simp add: rgb_at_def nth_dither_step_before)
    have here: "?d'' ! (4 * ?p + c) = ToUint8Clamp (num (channel new c))" if "c < 3" for c
    proof -
      from that have c4: "c < 4" by simp
      have j: "4 * ?p + c < length d'" using inside that by linarith
      have "?d'' ! (4 * ?p + c) = ToUint8Clamp (num (channel new ((4 * ?p + c) mod 4)))"
        by (rule nth_dither_step_here [OF x j])
           (simp_all only: byte_index_div_mod [OF c4] that)
      then show ?thesis by (simp only: byte_index_div_mod [OF c4])
    qed
    have "rgb_at ?d'' ?p = new"
      using here [of 0] here [of 1] here [of 2] rng
      by (simp add: rgb_at_def rgb uint_ToUint8Clamp_num)
    with before inv new have "\<forall>q < ?p + 1. rgb_at ?d'' q \<in> set palette"
      by (auto simp: less_Suc_eq)
    with inv res show "\<exists>d''. dither_pixel w h palette y x d' = Inr d'' \<and> ?I (?p + 1) d''"
      by simp
  qed
  then show ?thesis by (simp add: mult.commute)
qed

text \<open>
  Claim C3. For every image and every non-empty palette of channels in \<open>[0, 255]\<close>, every
  pixel of the image \<open>floydSteinbergDither\<close> returns has an (R, G, B) triple that is an entry
  of the palette.
\<close>

theorem floydSteinbergDither_palette_colours:
  assumes "wf_image img" "valid_palette palette"
  shows "\<exists>out. floydSteinbergDither img palette = Inr out \<and>
           width out = width img \<and> height out = height img \<and>
           length (data out) = length (data img) \<and>
           (\<forall>q < width img * height img. rgb_at (data out) q \<in> set palette)"
proof -
  from assms(1) have len: "length (data img) = 4 * width img * height img"
    by (simp add: wf_image_def)
  from dither_rows_palette [OF assms(2) len] obtain d' where
    d': "dither_rows (width img) (height img) palette (data img) = Inr d'"
    and l: "length d' = length (data img)"
    and pal: "\<forall>q < width img * height img. rgb_at d' q \<in> set palette" by blast
  from floydSteinbergDither_result [OF assms(1) d' l] l pal show ?thesis by simp
qed

theorem floydSteinbergDither_palette_colours_witness:
  "wf_image \<lparr>data = [128, 128, 128, 255, 128, 128, 128, 255], width = 2, height = 1\<rparr> \<and>
   valid_palette [(0, 0, 0), (255, 255, 255)] \<and>
   floydSteinbergDither \<lparr>data = [128, 128, 128, 255, 128, 128, 128, 255], width = 2, height = 1\<rparr>
       [(0, 0, 0), (255, 255, 255)] =
     Inr \<lparr>data = [255, 255, 255, 255, 0, 0, 0, 255], width = 2, height = 1\<rparr>"
proof -
  have wf: "wf_image \<lparr>data = [128, 128, 128, 255, 128, 128, 128, 255], width = 2, height = 1\<rparr>"
    by (simp add: wf_image_def)
  have vp: "valid_palette [(0, 0, 0), (255, 255, 255)]" by (simp add: valid_palette_def)
  have r: "floydSteinbergDither \<lparr>data = [128, 128, 128, 255, 128, 128, 128, 255], width = 2, height = 1\<rparr>
       [(0, 0, 0), (255, 255, 255)] =
     Inr \<lparr>data = [255, 255, 255, 255, 0, 0, 0, 255], width = 2, height = 1\<rparr>"
    by code_simp
  from floydSteinbergDither_palette_colours [OF wf vp] wf vp r show ?thesis by blast
qed

end
